theory Spec2Isabelle
  imports Main "HOL-Library.Sublist"
begin

section \<open>sync-github-ssh-keys: reconciling fetched keys into an authorized_keys file\<close>

text \<open>
  The development follows \<^verbatim>\<open>main.go\<close>. Strings are byte lists, the map
  \<^verbatim>\<open>newKeysetHashed\<close> (a Go \<^verbatim>\<open>map[string]struct{}\<close>) is a set of strings, the
  output buffer is the string written so far, and every error return of the source is a
  value of type \<open>error\<close>.
\<close>

subsection \<open>Constants and errors\<close>

definition keyMagicComment :: string where
  "keyMagicComment = ''synced from github''"

text \<open>
  \<open>Environment\<close> stands for an error handed up by the operating system or the network
  (a failed read, open, seek, write or truncate); \<open>MalformedLine i\<close> is
  \<^verbatim>\<open>errors.Errorf("line %v in authorized keys file malformed", i)\<close>; \<open>Wrap e msg\<close> is
  \<^verbatim>\<open>errors.Wrap(e, msg)\<close>.
\<close>

datatype error =
    Environment
  | MalformedLine nat
  | Wrap error string

subsection \<open>The library calls\<close>

text \<open>
  \<^verbatim>\<open>strings.SplitN(s, sep, n)\<close> for a one-byte separator and \<open>n \<ge> 0\<close>: at most \<open>n\<close>
  substrings, cut at the first \<open>n - 1\<close> occurrences of the separator, the last one being
  the unsplit remainder. The source calls it with the separator \<^verbatim>\<open>" "\<close> and \<open>n = 3\<close>.
\<close>

fun SplitN :: "string \<Rightarrow> char \<Rightarrow> nat \<Rightarrow> string list" where
  "SplitN s sep 0 = []"
| "SplitN s sep (Suc 0) = [s]"
| "SplitN s sep (Suc (Suc n)) =
     (if sep \<in> set s
      then takeWhile (\<lambda>c. c \<noteq> sep) s # SplitN (tl (dropWhile (\<lambda>c. c \<noteq> sep) s)) sep (Suc n)
      else [s])"

text \<open>
  The input is an \<^verbatim>\<open>io.Reader\<close> behind a \<^verbatim>\<open>bufio.Reader\<close>: the bytes it still
  delivers, and how the stream ends after them (\<^verbatim>\<open>io.EOF\<close>, or a read error).
\<close>

datatype stream_end = EOF | ReadFailure

type_synonym reader = "string \<times> stream_end"

text \<open>
  \<^verbatim>\<open>bufio.Reader.ReadString(delim)\<close> on the bytes still to come: when the delimiter
  occurs, the bytes up to and including it, with a nil error, and the bytes left in the
  stream; \<open>None\<close> when it does not occur, where \<^verbatim>\<open>ReadString\<close> returns the bytes
  left together with the error that ends the stream.
\<close>

definition ReadString :: "string \<Rightarrow> char \<Rightarrow> (string \<times> string) option" where
  "ReadString buf delim =
     (if delim \<in> set buf
      then Some (takeWhile (\<lambda>c. c \<noteq> delim) buf @ [delim], tl (dropWhile (\<lambda>c. c \<noteq> delim) buf))
      else None)"

lemma ReadString_shorter: "ReadString buf delim = Some (l, rest) \<Longrightarrow> length rest < length buf"
proof -
  assume h: "ReadString buf delim = Some (l, rest)"
  then have mem: "delim \<in> set buf" and r: "rest = tl (dropWhile (\<lambda>c. c \<noteq> delim) buf)"
    by (auto simp: ReadString_def split: if_splits)
  from mem have ne: "dropWhile (\<lambda>c. c \<noteq> delim) buf \<noteq> []"
    by (auto simp: dropWhile_eq_Nil_conv)
  have "length (dropWhile (\<lambda>c. c \<noteq> delim) buf) \<le> length buf"
    by (rule length_dropWhile_le)
  with ne r show ?thesis
    by (cases "dropWhile (\<lambda>c. c \<noteq> delim) buf") auto
qed

subsection \<open>ensureKeysetUpToDate\<close>

text \<open>
  The first loop of \<^verbatim>\<open>ensureKeysetUpToDate\<close> (\<^verbatim>\<open>for i := 1; ; i++\<close>), from any of
  its states: the line counter, the map, the output written so far and the reader. It
  returns the error (if any), the output and the map it ends with. The output is the
  \<^verbatim>\<open>bytes.Buffer\<close> of the only caller, whose writes return no error, so the three
  returns on a failed write are never taken.
\<close>

function read_loop ::
  "nat \<Rightarrow> string set \<Rightarrow> string \<Rightarrow> reader \<Rightarrow> error option \<times> string \<times> string set" where
  "read_loop i newKeysetHashed output (buf, fin) =
     (case ReadString buf CHR ''\<newline>'' of
        None \<Rightarrow>
          (case fin of
             EOF \<Rightarrow> (None, output, newKeysetHashed)
           | ReadFailure \<Rightarrow>
               (Some (Wrap Environment ''could not read authorized keys file''),
                output, newKeysetHashed))
      | Some (line0, rest) \<Rightarrow>
          (let line = (if length line0 \<noteq> 0 \<and> last line0 = CHR ''\<newline>''
                       then butlast line0 else line0);
               parts = SplitN line CHR '' '' 3
           in if length parts < 2 then (Some (MalformedLine i), output, newKeysetHashed)
              else
                (let key = parts ! 0 @ '' '' @ parts ! 1;
                     output' =
                       (if length parts > 3 \<and> parts ! 2 = keyMagicComment
                        then (if key \<notin> newKeysetHashed
                              then output @ key @ '' '' @ keyMagicComment @ ''\<newline>''
                              else output)
                        else output @ line @ ''\<newline>'')
                 in read_loop (i + 1) (newKeysetHashed - {key}) output' (rest, fin))))"
  by pat_completeness auto
termination
  by (relation "measure (\<lambda>(i, m, out, buf, fin). length buf)")
     (auto dest: ReadString_shorter)

text \<open>
  The second loop, \<^verbatim>\<open>for key := range newKeysetHashed\<close>, given the order in which the
  runtime hands out the keys.
\<close>

primrec write_loop :: "string \<Rightarrow> string list \<Rightarrow> string" where
  "write_loop output [] = output"
| "write_loop output (key # keys) =
     write_loop (output @ key @ '' '' @ keyMagicComment @ ''\<newline>'') keys"

text \<open>
  Go leaves the order of a \<^verbatim>\<open>range\<close> over a map to the runtime: every key is visited
  once, in some order. \<open>map_range m ks\<close> says that \<open>ks\<close> is such an order for the map
  \<open>m\<close>.
\<close>

definition map_range :: "string set \<Rightarrow> string list \<Rightarrow> bool" where
  "map_range m ks \<longleftrightarrow> distinct ks \<and> set ks = m"

text \<open>
  \<^verbatim>\<open>ensureKeysetUpToDate(newKeyset, output, input)\<close>, with the order \<open>iteration\<close> of the
  final \<^verbatim>\<open>range\<close> as an argument: the error returned and the bytes written to the
  output.
\<close>

definition ensureKeysetUpToDate ::
  "string list \<Rightarrow> string list \<Rightarrow> reader \<Rightarrow> error option \<times> string" where
  "ensureKeysetUpToDate iteration newKeyset input =
     (case read_loop 1 (set newKeyset) [] input of
        (Some e, output, newKeysetHashed) \<Rightarrow> (Some e, output)
      | (None, output, newKeysetHashed) \<Rightarrow> (None, write_loop output iteration))"

text \<open>The map the first loop leaves behind, which the second loop ranges over.\<close>

definition pending :: "string list \<Rightarrow> reader \<Rightarrow> string set" where
  "pending newKeyset input = snd (snd (read_loop 1 (set newKeyset) [] input))"

subsection \<open>Lines, keys and the ownership marker\<close>

text \<open>
  The key of a line as the loop computes it (\<^verbatim>\<open>key := parts[0] + " " + parts[1]\<close>); it
  is read only for a line that splits into at least two parts.
\<close>

definition key_of :: "string \<Rightarrow> string" where
  "key_of line = (let parts = SplitN line CHR '' '' 3 in parts ! 0 @ '' '' @ parts ! 1)"

text \<open>
  A line carries the ownership marker when its split has a third part and that part is
  \<^verbatim>\<open>keyMagicComment\<close>: the managed lines of the specification.
\<close>

definition carries_marker :: "string \<Rightarrow> bool" where
  "carries_marker line =
     (let parts = SplitN line CHR '' '' 3 in length parts = 3 \<and> parts ! 2 = keyMagicComment)"

text \<open>
  The lines of a file as the loop reads them: the pieces that end in a newline, without
  it. Bytes after the last newline are not among them.
\<close>

function file_lines :: "string \<Rightarrow> string list" where
  "file_lines buf =
     (case ReadString buf CHR ''\<newline>'' of
        None \<Rightarrow> []
      | Some (line0, rest) \<Rightarrow> butlast line0 # file_lines rest)"
  by pat_completeness auto
termination
  by (relation "measure length") (auto dest: ReadString_shorter)

text \<open>Lines written out one after the other, each followed by a newline.\<close>

definition unlines :: "string list \<Rightarrow> string" where
  "unlines ls = concat (map (\<lambda>l. l @ ''\<newline>'') ls)"


text \<open>
  A fetched key of the form \<^verbatim>\<open><algorithm> <key-material>\<close>: it splits into exactly two
  parts, and holds no newline (\<^verbatim>\<open>getSSHKeys\<close> cuts the response body at the newlines).
\<close>

definition two_part_key :: "string \<Rightarrow> bool" where
  "two_part_key k \<longleftrightarrow> length (SplitN k CHR '' '' 3) = 2 \<and> CHR ''\<newline>'' \<notin> set k"

text \<open>
  The test of the loop on a line, \<^verbatim>\<open>len(parts) < 2\<close>: the line cannot be split into
  two parts.
\<close>

definition malformed :: "string \<Rightarrow> bool" where
  "malformed line \<longleftrightarrow> length (SplitN line CHR '' '' 3) < 2"

text \<open>
  The canonical form of a managed line, as both \<^verbatim>\<open>Fprintf(output, "%v %v\n", key,
  keyMagicComment)\<close> write it, without the newline.
\<close>

definition marked_line :: "string \<Rightarrow> string" where
  "marked_line key = key @ '' '' @ keyMagicComment"

subsection \<open>syncGithubKeys\<close>

text \<open>
  What one cycle meets outside the program: the result of \<^verbatim>\<open>getSSHKeys\<close>, the
  contents of the authorized_keys file (\<open>None\<close> when it cannot be opened), and the
  faults of the file operations: reading fails after \<open>n\<close> bytes, the seek fails, the
  copy stops after \<open>n\<close> bytes, the truncation fails.
\<close>

record environment =
  fetched :: "error + string list"
  authorized_keys :: "string option"
  read_fault :: "nat option"
  seek_fault :: bool
  copy_fault :: "nat option"
  truncate_fault :: bool

definition file_reader :: "environment \<Rightarrow> string \<Rightarrow> reader" where
  "file_reader env content =
     (case read_fault env of None \<Rightarrow> (content, EOF) | Some n \<Rightarrow> (take n content, ReadFailure))"

text \<open>
  \<^verbatim>\<open>syncGithubKeys\<close>: the error returned and the contents of the file afterwards. The
  copy writes at offset 0 over the old contents; the truncation cuts the file to the
  number of bytes copied.
\<close>

definition syncGithubKeys :: "string list \<Rightarrow> environment \<Rightarrow> error option \<times> string option" where
  "syncGithubKeys iteration env =
     (case fetched env of
        Inl e \<Rightarrow> (Some (Wrap e ''could not get public keys from github''), authorized_keys env)
      | Inr publicKeys \<Rightarrow>
          (case authorized_keys env of
             None \<Rightarrow> (Some (Wrap Environment ''could not open authorized keys file''), None)
           | Some content \<Rightarrow>
               (case ensureKeysetUpToDate iteration publicKeys (file_reader env content) of
                  (Some e, outputBuffer) \<Rightarrow>
                    (Some (Wrap e ''could not update authorized keys file''), Some content)
                | (None, outputBuffer) \<Rightarrow>
                    if seek_fault env
                    then (Some (Wrap Environment ''could not seek authorized keys file''),
                          Some content)
                    else
                      (case copy_fault env of
                         Some n \<Rightarrow>
                           (Some (Wrap Environment
                                    ''could not copy new contents to authorized keys file''),
                            Some (take n outputBuffer @ drop n content))
                       | None \<Rightarrow>
                           (let written = outputBuffer @ drop (length outputBuffer) content
                            in if truncate_fault env
                               then (Some (Wrap Environment
                                             ''could not truncate authorized keys file''),
                                     Some written)
                               else (None, Some (take (length outputBuffer) written)))))))"

section \<open>Properties\<close>

subsection \<open>Splitting and reading\<close>

declare read_loop.simps [simp del] file_lines.simps [simp del]

lemma length_SplitN_le: "length (SplitN s sep n) \<le> n"
  by (induction s sep n rule: SplitN.induct) auto

lemma SplitN_absent: "sep \<notin> set s \<Longrightarrow> SplitN s sep (Suc n) = [s]"
  by (cases n) auto

lemma split_at_first:
  "sep \<in> set s \<Longrightarrow>
   s = takeWhile (\<lambda>c. c \<noteq> sep) s @ sep # tl (dropWhile (\<lambda>c. c \<noteq> sep) s)"
proof -
  assume mem: "sep \<in> set s"
  then have ne: "dropWhile (\<lambda>c. c \<noteq> sep) s \<noteq> []"
    by (auto simp: dropWhile_eq_Nil_conv)
  then have "hd (dropWhile (\<lambda>c. c \<noteq> sep) s) = sep"
    using hd_dropWhile [of "\<lambda>c. c \<noteq> sep" s] by simp
  with ne have "dropWhile (\<lambda>c. c \<noteq> sep) s = sep # tl (dropWhile (\<lambda>c. c \<noteq> sep) s)"
    by (cases "dropWhile (\<lambda>c. c \<noteq> sep) s") auto
  then show ?thesis
    using takeWhile_dropWhile_id [of "\<lambda>c. c \<noteq> sep" s] by simp
qed

lemma takeWhile_first: "sep \<notin> set a \<Longrightarrow> takeWhile (\<lambda>c. c \<noteq> sep) (a @ sep # t) = a"
  by (induction a) auto

lemma dropWhile_first: "sep \<notin> set a \<Longrightarrow> dropWhile (\<lambda>c. c \<noteq> sep) (a @ sep # t) = sep # t"
  by (induction a) auto

lemma SplitN_first:
  "sep \<notin> set a \<Longrightarrow> SplitN (a @ sep # t) sep (Suc (Suc n)) = a # SplitN t sep (Suc n)"
  by (simp add: takeWhile_first dropWhile_first)

lemma ReadString_line:
  "delim \<notin> set l \<Longrightarrow> ReadString (l @ delim # rest) delim = Some (l @ [delim], rest)"
  by (simp add: ReadString_def takeWhile_first dropWhile_first)

lemma ReadString_absent: "delim \<notin> set buf \<Longrightarrow> ReadString buf delim = None"
  by (simp add: ReadString_def)

lemma SplitN_3_length: "CHR '' '' \<in> set l \<Longrightarrow> 2 \<le> length (SplitN l CHR '' '' 3)"
  by (simp add: numeral_3_eq_3)

lemma read_loop_line:
  "CHR ''\<newline>'' \<notin> set l \<Longrightarrow>
   read_loop i m out (l @ CHR ''\<newline>'' # rest, fin) =
     (if CHR '' '' \<in> set l
      then read_loop (Suc i) (m - {key_of l}) (out @ l @ ''\<newline>'') (rest, fin)
      else (Some (MalformedLine i), out, m))"
proof -
  assume nl: "CHR ''\<newline>'' \<notin> set l"
  have le: "\<not> 3 < length (SplitN l CHR '' '' 3)"
    using length_SplitN_le [of l "CHR '' ''" 3] by simp
  show ?thesis
  proof (cases "CHR '' '' \<in> set l")
    case True
    then have "2 \<le> length (SplitN l CHR '' '' 3)" by (rule SplitN_3_length)
    then have "\<not> length (SplitN l CHR '' '' 3) < 2" by simp
    with True le show ?thesis
      by (subst read_loop.simps) (simp add: ReadString_line [OF nl] key_of_def Let_def)
  next
    case False
    then have "SplitN l CHR '' '' 3 = [l]"
      by (simp add: numeral_3_eq_3)
    with False show ?thesis
      by (subst read_loop.simps) (simp add: ReadString_line [OF nl])
  qed
qed

lemma read_loop_stop:
  "CHR ''\<newline>'' \<notin> set buf \<Longrightarrow>
   read_loop i m out (buf, fin) =
     (case fin of
        EOF \<Rightarrow> (None, out, m)
      | ReadFailure \<Rightarrow> (Some (Wrap Environment ''could not read authorized keys file''), out, m))"
  by (subst read_loop.simps) (simp add: ReadString_absent)

lemma file_lines_line:
  "CHR ''\<newline>'' \<notin> set l \<Longrightarrow> file_lines (l @ CHR ''\<newline>'' # rest) = l # file_lines rest"
  by (subst file_lines.simps) (simp add: ReadString_line)

lemma file_lines_stop: "CHR ''\<newline>'' \<notin> set buf \<Longrightarrow> file_lines buf = []"
  by (subst file_lines.simps) (simp add: ReadString_absent)


lemma unlines_Nil [simp]: "unlines [] = []"
  by (simp add: unlines_def)

lemma unlines_Cons [simp]: "unlines (l # ls) = l @ CHR ''\<newline>'' # unlines ls"
  by (simp add: unlines_def)

lemma unlines_append [simp]: "unlines (xs @ ys) = unlines xs @ unlines ys"
  by (simp add: unlines_def)

lemma file_lines_no_newline: "l \<in> set (file_lines buf) \<Longrightarrow> CHR ''\<newline>'' \<notin> set l"
proof (induction buf arbitrary: l rule: file_lines.induct)
  case (1 buf)
  show ?case
  proof (cases "CHR ''\<newline>'' \<in> set buf")
    case False
    with "1.prems" show ?thesis by (simp add: file_lines_stop)
  next
    case True
    define a where "a = takeWhile (\<lambda>c. c \<noteq> CHR ''\<newline>'') buf"
    define t where "t = tl (dropWhile (\<lambda>c. c \<noteq> CHR ''\<newline>'') buf)"
    have buf: "buf = a @ CHR ''\<newline>'' # t"
      unfolding a_def t_def using True by (rule split_at_first)
    have a: "CHR ''\<newline>'' \<notin> set a"
      unfolding a_def by (auto dest: set_takeWhileD)
    have rs: "ReadString buf CHR ''\<newline>'' = Some (a @ ''\<newline>'', t)"
      using ReadString_line [OF a, of t] buf by simp
    have fl: "file_lines buf = a # file_lines t"
      using file_lines_line [OF a, of t] buf by simp
    from "1.prems" fl have "l = a \<or> l \<in> set (file_lines t)" by simp
    then show ?thesis
    proof
      assume "l = a" with a show ?thesis by simp
    next
      assume "l \<in> set (file_lines t)"
      then show ?thesis using "1.IH" [OF rs refl] by simp
    qed
  qed
qed

lemma file_lines_unlines:
  "\<forall>l\<in>set ls. CHR ''\<newline>'' \<notin> set l \<Longrightarrow> file_lines (unlines ls @ rest) = ls @ file_lines rest"
  by (induction ls) (simp_all add: file_lines_line)

lemma file_lines_split:
  "file_lines buf = pre @ post \<Longrightarrow> \<exists>rest. buf = unlines pre @ rest \<and> file_lines rest = post"
proof (induction pre arbitrary: buf)
  case Nil
  then show ?case by simp
next
  case (Cons l pre)
  have mem: "CHR ''\<newline>'' \<in> set buf"
  proof (rule ccontr)
    assume "CHR ''\<newline>'' \<notin> set buf"
    then have "file_lines buf = []" by (rule file_lines_stop)
    with Cons.prems show False by simp
  qed
  define a where "a = takeWhile (\<lambda>c. c \<noteq> CHR ''\<newline>'') buf"
  define t where "t = tl (dropWhile (\<lambda>c. c \<noteq> CHR ''\<newline>'') buf)"
  have buf: "buf = a @ CHR ''\<newline>'' # t"
    unfolding a_def t_def using mem by (rule split_at_first)
  have a: "CHR ''\<newline>'' \<notin> set a"
    unfolding a_def by (auto dest: set_takeWhileD)
  have fl: "file_lines buf = a # file_lines t"
    using file_lines_line [OF a, of t] buf by simp
  with Cons.prems have la: "l = a" and ft: "file_lines t = pre @ post" by simp_all
  from Cons.IH [OF ft] obtain rest where "t = unlines pre @ rest" "file_lines rest = post"
    by blast
  with buf la show ?case by simp
qed

lemma file_lines_trailing:
  "\<exists>frag. buf = unlines (file_lines buf) @ frag \<and> CHR ''\<newline>'' \<notin> set frag"
proof -
  obtain rest where r: "buf = unlines (file_lines buf) @ rest" "file_lines rest = []"
    using file_lines_split [of buf "file_lines buf" "[]"] by auto
  have "CHR ''\<newline>'' \<notin> set rest"
  proof
    assume mem: "CHR ''\<newline>'' \<in> set rest"
    define a where "a = takeWhile (\<lambda>c. c \<noteq> CHR ''\<newline>'') rest"
    have a: "CHR ''\<newline>'' \<notin> set a"
      unfolding a_def by (auto dest: set_takeWhileD)
    have "rest = a @ CHR ''\<newline>'' # tl (dropWhile (\<lambda>c. c \<noteq> CHR ''\<newline>'') rest)"
      unfolding a_def using mem by (rule split_at_first)
    then have "file_lines rest \<noteq> []"
      using file_lines_line [OF a, of "tl (dropWhile (\<lambda>c. c \<noteq> CHR ''\<newline>'') rest)"] by simp
    with r show False by simp
  qed
  with r show ?thesis by blast
qed

text \<open>The loop over a block of well-formed lines.\<close>

lemma read_loop_lines:
  "\<forall>l\<in>set pre. CHR ''\<newline>'' \<notin> set l \<and> CHR '' '' \<in> set l \<Longrightarrow>
   read_loop i m out (unlines pre @ rest, fin) =
   read_loop (i + length pre) (m - key_of ` set pre) (out @ unlines pre) (rest, fin)"
proof (induction pre arbitrary: i m out)
  case Nil
  then show ?case by simp
next
  case (Cons l pre)
  then have nl: "CHR ''\<newline>'' \<notin> set l" and sp: "CHR '' '' \<in> set l"
    and rest: "\<forall>l\<in>set pre. CHR ''\<newline>'' \<notin> set l \<and> CHR '' '' \<in> set l"
    by simp_all
  have eq: "m - {key_of l} - key_of ` set pre = m - key_of ` set (l # pre)"
    by auto
  show ?case
    using read_loop_line [OF nl, of i m out "unlines pre @ rest" fin] sp
      Cons.IH [OF rest, of "Suc i" "m - {key_of l}" "out @ l @ ''\<newline>''"] eq
    by simp
qed

lemma read_loop_wellformed:
  assumes "\<forall>l\<in>set (file_lines buf). CHR '' '' \<in> set l"
  shows "read_loop i m out (buf, fin) =
     (case fin of
        EOF \<Rightarrow> (None, out @ unlines (file_lines buf), m - key_of ` set (file_lines buf))
      | ReadFailure \<Rightarrow>
          (Some (Wrap Environment ''could not read authorized keys file''),
           out @ unlines (file_lines buf), m - key_of ` set (file_lines buf)))"
proof -
  obtain frag where buf: "buf = unlines (file_lines buf) @ frag"
    and frag: "CHR ''\<newline>'' \<notin> set frag"
    using file_lines_trailing by blast
  have wf: "\<forall>l\<in>set (file_lines buf). CHR ''\<newline>'' \<notin> set l \<and> CHR '' '' \<in> set l"
    using assms file_lines_no_newline by blast
  have "read_loop i m out (unlines (file_lines buf) @ frag, fin) =
        read_loop (i + length (file_lines buf)) (m - key_of ` set (file_lines buf))
          (out @ unlines (file_lines buf)) (frag, fin)"
    using wf by (rule read_loop_lines)
  with buf have "read_loop i m out (buf, fin) =
        read_loop (i + length (file_lines buf)) (m - key_of ` set (file_lines buf))
          (out @ unlines (file_lines buf)) (frag, fin)"
    by simp
  then show ?thesis by (simp add: read_loop_stop [OF frag])
qed

lemma read_loop_malformed:
  assumes fl: "file_lines buf = pre @ line # post"
    and pre: "\<forall>l\<in>set pre. CHR '' '' \<in> set l"
    and bad: "CHR '' '' \<notin> set line"
  shows "read_loop i m out (buf, fin) =
     (Some (MalformedLine (i + length pre)), out @ unlines pre, m - key_of ` set pre)"
proof -
  from fl obtain rest where buf: "buf = unlines pre @ rest" and r: "file_lines rest = line # post"
    using file_lines_split [of buf pre "line # post"] by auto
  obtain rest' where rest: "rest = unlines [line] @ rest'"
    using file_lines_split [of rest "[line]" post] r by auto
  have nl: "CHR ''\<newline>'' \<notin> set line"
    using file_lines_no_newline [of line buf] fl by simp
  have wf: "\<forall>l\<in>set pre. CHR ''\<newline>'' \<notin> set l \<and> CHR '' '' \<in> set l"
    using pre fl file_lines_no_newline [of _ buf] by simp
  have "read_loop i m out (unlines pre @ rest, fin) =
        read_loop (i + length pre) (m - key_of ` set pre) (out @ unlines pre) (rest, fin)"
    using wf by (rule read_loop_lines)
  moreover have "read_loop (i + length pre) (m - key_of ` set pre) (out @ unlines pre) (rest, fin) =
        (Some (MalformedLine (i + length pre)), out @ unlines pre, m - key_of ` set pre)"
    using read_loop_line [OF nl, of "i + length pre" "m - key_of ` set pre" "out @ unlines pre" rest' fin]
      bad rest by simp
  ultimately show ?thesis using buf by simp
qed

lemma malformed_iff: "malformed l \<longleftrightarrow> CHR '' '' \<notin> set l"
  by (simp add: malformed_def numeral_3_eq_3)

lemma write_loop_eq: "write_loop out ks = out @ unlines (map marked_line ks)"
  by (induction ks arbitrary: out) (simp_all add: marked_line_def)

lemma read_loop_result:
  "\<exists>e ls. set ls \<subseteq> set (file_lines buf) \<and>
     read_loop i m out (buf, fin) = (e, out @ unlines ls, m - key_of ` set ls)"
proof (cases "\<forall>l\<in>set (file_lines buf). CHR '' '' \<in> set l")
  case True
  then show ?thesis
    using read_loop_wellformed [of buf i m out fin]
    by (cases fin) auto
next
  case False
  then have "\<exists>x\<in>set (file_lines buf). CHR '' '' \<notin> set x" by simp
  then obtain pre line post where fl: "file_lines buf = pre @ line # post"
    and bad: "CHR '' '' \<notin> set line" and pre: "\<forall>l\<in>set pre. \<not> CHR '' '' \<notin> set l"
    using split_list_first_prop [of "file_lines buf" "\<lambda>x. CHR '' '' \<notin> set x"] by blast
  from pre have pre': "\<forall>l\<in>set pre. CHR '' '' \<in> set l" by simp
  have "read_loop i m out (buf, fin) =
     (Some (MalformedLine (i + length pre)), out @ unlines pre, m - key_of ` set pre)"
    using fl pre' bad by (rule read_loop_malformed)
  moreover have "set pre \<subseteq> set (file_lines buf)" using fl by auto
  ultimately show ?thesis by blast
qed

lemma read_loop_output_prefix: "prefix out (fst (snd (read_loop i m out input)))"
proof -
  obtain buf fin where "input = (buf, fin)" by (cases input)
  then show ?thesis using read_loop_result [of buf i m out fin] by auto
qed

lemma read_loop_map_subset: "snd (snd (read_loop i m out input)) \<subseteq> m"
proof -
  obtain buf fin where "input = (buf, fin)" by (cases input)
  then show ?thesis using read_loop_result [of buf i m out fin] by auto
qed

lemma ensure_output_prefix:
  "prefix (fst (snd (read_loop 1 (set newKeyset) [] input)))
     (snd (ensureKeysetUpToDate iteration newKeyset input))"
  by (auto simp: ensureKeysetUpToDate_def write_loop_eq split: prod.splits option.splits)

subsection \<open>Whole runs\<close>

text \<open>
  A run stops at the first line that cannot be split in two, with its number and the
  lines before it in the output; a run over lines that all split in two writes every
  line it read and leaves in the map the fetched keys that are the key of no line.
\<close>

lemma ensure_malformed:
  assumes "file_lines buf = pre @ line # post"
    and "\<forall>l\<in>set pre. \<not> malformed l"
    and "malformed line"
  shows "ensureKeysetUpToDate iteration newKeyset (buf, fin) =
           (Some (MalformedLine (length pre + 1)), unlines pre)"
proof -
  have "read_loop 1 (set newKeyset) [] (buf, fin) =
     (Some (MalformedLine (1 + length pre)), [] @ unlines pre, set newKeyset - key_of ` set pre)"
    using assms by (intro read_loop_malformed) (simp_all add: malformed_iff)
  then show ?thesis by (simp add: ensureKeysetUpToDate_def)
qed

lemma ensure_wellformed:
  assumes "\<forall>l\<in>set (file_lines buf). \<not> malformed l"
  shows "ensureKeysetUpToDate iteration newKeyset (buf, EOF) =
           (None, unlines (file_lines buf) @ unlines (map marked_line iteration))"
    and "pending newKeyset (buf, EOF) = set newKeyset - key_of ` set (file_lines buf)"
proof -
  have "read_loop 1 (set newKeyset) [] (buf, EOF) =
     (None, [] @ unlines (file_lines buf), set newKeyset - key_of ` set (file_lines buf))"
    using assms read_loop_wellformed [of buf 1 "set newKeyset" "[]" EOF]
    by (simp add: malformed_iff)
  then show "ensureKeysetUpToDate iteration newKeyset (buf, EOF) =
           (None, unlines (file_lines buf) @ unlines (map marked_line iteration))"
    and "pending newKeyset (buf, EOF) = set newKeyset - key_of ` set (file_lines buf)"
    by (simp_all add: ensureKeysetUpToDate_def write_loop_eq pending_def)
qed

lemma ensure_succeeds_iff:
  "fst (ensureKeysetUpToDate iteration newKeyset (buf, EOF)) = None \<longleftrightarrow>
   (\<forall>l\<in>set (file_lines buf). \<not> malformed l)"
proof
  assume ok: "fst (ensureKeysetUpToDate iteration newKeyset (buf, EOF)) = None"
  show "\<forall>l\<in>set (file_lines buf). \<not> malformed l"
  proof (rule ccontr)
    assume "\<not> (\<forall>l\<in>set (file_lines buf). \<not> malformed l)"
    then have "\<exists>x\<in>set (file_lines buf). malformed x" by simp
    then obtain pre line post where "file_lines buf = pre @ line # post"
      "malformed line" "\<forall>l\<in>set pre. \<not> malformed l"
      using split_list_first_prop [of "file_lines buf" malformed] by blast
    then have "fst (ensureKeysetUpToDate iteration newKeyset (buf, EOF)) =
       Some (MalformedLine (length pre + 1))"
      using ensure_malformed [of buf pre line post iteration newKeyset EOF] by simp
    with ok show False by simp
  qed
next
  assume "\<forall>l\<in>set (file_lines buf). \<not> malformed l"
  then show "fst (ensureKeysetUpToDate iteration newKeyset (buf, EOF)) = None"
    by (simp add: ensure_wellformed)
qed

lemma ensure_success:
  assumes "fst (ensureKeysetUpToDate iteration newKeyset (buf, fin)) = None"
  shows "fin = EOF"
    and "\<forall>l\<in>set (file_lines buf). \<not> malformed l"
    and "snd (ensureKeysetUpToDate iteration newKeyset (buf, fin)) =
           unlines (file_lines buf) @ unlines (map marked_line iteration)"
    and "pending newKeyset (buf, fin) = set newKeyset - key_of ` set (file_lines buf)"
proof -
  show wf: "\<forall>l\<in>set (file_lines buf). \<not> malformed l"
  proof (rule ccontr)
    assume "\<not> (\<forall>l\<in>set (file_lines buf). \<not> malformed l)"
    then have "\<exists>x\<in>set (file_lines buf). malformed x" by simp
    then obtain pre line post where "file_lines buf = pre @ line # post"
      "malformed line" "\<forall>l\<in>set pre. \<not> malformed l"
      using split_list_first_prop [of "file_lines buf" malformed] by blast
    then have "fst (ensureKeysetUpToDate iteration newKeyset (buf, fin)) =
       Some (MalformedLine (length pre + 1))"
      using ensure_malformed [of buf pre line post iteration newKeyset fin] by simp
    with assms show False by simp
  qed
  show fin: "fin = EOF"
  proof (cases fin)
    case EOF
    then show ?thesis .
  next
    case ReadFailure
    have "\<forall>l\<in>set (file_lines buf). CHR '' '' \<in> set l"
      using wf by (simp add: malformed_iff)
    then have "fst (read_loop 1 (set newKeyset) [] (buf, fin)) \<noteq> None"
      using read_loop_wellformed [of buf 1 "set newKeyset" "[]" fin] ReadFailure by simp
    then have "fst (ensureKeysetUpToDate iteration newKeyset (buf, fin)) \<noteq> None"
      by (auto simp: ensureKeysetUpToDate_def split: prod.splits option.splits)
    with assms show ?thesis by simp
  qed
  show "snd (ensureKeysetUpToDate iteration newKeyset (buf, fin)) =
           unlines (file_lines buf) @ unlines (map marked_line iteration)"
    using ensure_wellformed(1) [OF wf, of iteration newKeyset] fin by simp
  show "pending newKeyset (buf, fin) = set newKeyset - key_of ` set (file_lines buf)"
    using ensure_wellformed(2) [OF wf, of newKeyset] fin by simp
qed

lemma SplitN_3_join:
  assumes "SplitN l sep 3 = [a, b, c]"
  shows "l = a @ sep # b @ sep # c"
proof -
  define t where "t = tl (dropWhile (\<lambda>x. x \<noteq> sep) l)"
  from assms have m1: "sep \<in> set l"
    by (auto simp: numeral_3_eq_3 split: if_splits)
  with assms have a: "a = takeWhile (\<lambda>x. x \<noteq> sep) l" and r: "SplitN t sep 2 = [b, c]"
    by (simp_all add: numeral_3_eq_3 numeral_2_eq_2 t_def)
  from r have m2: "sep \<in> set t"
    by (auto simp: numeral_2_eq_2 split: if_splits)
  with r have b: "b = takeWhile (\<lambda>x. x \<noteq> sep) t" and c: "c = tl (dropWhile (\<lambda>x. x \<noteq> sep) t)"
    by (simp_all add: numeral_2_eq_2)
  have "l = a @ sep # t" unfolding a t_def using m1 by (rule split_at_first)
  moreover have "t = b @ sep # c" unfolding b c using m2 by (rule split_at_first)
  ultimately show ?thesis by simp
qed

lemma not_pending_not_iterated:
  "map_range (pending newKeyset input) iteration \<Longrightarrow> k \<notin> pending newKeyset input \<Longrightarrow>
   k \<notin> set iteration"
  by (simp add: map_range_def)

text \<open>The loop up to and including a line that it reaches and that splits in two.\<close>

lemma read_loop_reaches:
  assumes pre: "\<forall>l\<in>set pre. CHR ''\<newline>'' \<notin> set l \<and> \<not> malformed l"
    and nl: "CHR ''\<newline>'' \<notin> set line"
    and ok: "\<not> malformed line"
  shows "read_loop 1 (set newKeyset) [] (unlines pre @ line @ ''\<newline>'' @ rest, fin) =
         read_loop (length pre + 2) (set newKeyset - key_of ` set pre - {key_of line})
           (unlines pre @ line @ ''\<newline>'') (rest, fin)"
proof -
  have wf: "\<forall>l\<in>set pre. CHR ''\<newline>'' \<notin> set l \<and> CHR '' '' \<in> set l"
    using pre by (simp add: malformed_iff)
  have sp: "CHR '' '' \<in> set line" using ok by (simp add: malformed_iff)
  have "read_loop 1 (set newKeyset) [] (unlines pre @ (line @ ''\<newline>'' @ rest), fin) =
        read_loop (1 + length pre) (set newKeyset - key_of ` set pre) ([] @ unlines pre)
          (line @ ''\<newline>'' @ rest, fin)"
    using wf by (rule read_loop_lines)
  also have "\<dots> = read_loop (Suc (1 + length pre)) (set newKeyset - key_of ` set pre - {key_of line})
          (([] @ unlines pre) @ line @ ''\<newline>'') (rest, fin)"
    using read_loop_line [OF nl, of "1 + length pre" "set newKeyset - key_of ` set pre"
        "[] @ unlines pre" rest fin] sp by simp
  finally show ?thesis by simp
qed

lemma reached_line_effects:
  assumes pre: "\<forall>l\<in>set pre. CHR ''\<newline>'' \<notin> set l \<and> \<not> malformed l"
    and nl: "CHR ''\<newline>'' \<notin> set line"
    and ok: "\<not> malformed line"
  shows "prefix (unlines pre @ line @ ''\<newline>'')
           (snd (ensureKeysetUpToDate iteration newKeyset
                   (unlines pre @ line @ ''\<newline>'' @ rest, fin)))"
    and "key_of line \<notin> pending newKeyset (unlines pre @ line @ ''\<newline>'' @ rest, fin)"
proof -
  let ?input = "(unlines pre @ line @ ''\<newline>'' @ rest, fin)"
  have eq: "read_loop 1 (set newKeyset) [] ?input =
         read_loop (length pre + 2) (set newKeyset - key_of ` set pre - {key_of line})
           (unlines pre @ line @ ''\<newline>'') (rest, fin)"
    using assms by (rule read_loop_reaches)
  have "prefix (unlines pre @ line @ ''\<newline>'') (fst (snd (read_loop 1 (set newKeyset) [] ?input)))"
    unfolding eq by (rule read_loop_output_prefix)
  moreover have "prefix (fst (snd (read_loop 1 (set newKeyset) [] ?input)))
     (snd (ensureKeysetUpToDate iteration newKeyset ?input))"
    by (rule ensure_output_prefix)
  ultimately show "prefix (unlines pre @ line @ ''\<newline>'')
     (snd (ensureKeysetUpToDate iteration newKeyset ?input))"
    by (rule prefix_order.trans)
  have "snd (snd (read_loop 1 (set newKeyset) [] ?input)) \<subseteq>
     set newKeyset - key_of ` set pre - {key_of line}"
    unfolding eq by (rule read_loop_map_subset)
  then show "key_of line \<notin> pending newKeyset ?input"
    by (auto simp: pending_def)
qed

text \<open>
  A fetched key of two parts, written out with the marker, is read back as a marked line
  with that key.
\<close>

lemma two_part_key_split:
  assumes "two_part_key k"
  shows "\<exists>a b. k = a @ CHR '' '' # b \<and> CHR '' '' \<notin> set a \<and> CHR '' '' \<notin> set b \<and>
           CHR ''\<newline>'' \<notin> set a \<and> CHR ''\<newline>'' \<notin> set b"
proof -
  define a where "a = takeWhile (\<lambda>c. c \<noteq> CHR '' '') k"
  define b where "b = tl (dropWhile (\<lambda>c. c \<noteq> CHR '' '') k)"
  from assms have len: "length (SplitN k CHR '' '' 3) = 2" and nl: "CHR ''\<newline>'' \<notin> set k"
    by (simp_all add: two_part_key_def)
  from len have m: "CHR '' '' \<in> set k"
    by (auto simp: numeral_3_eq_3 split: if_splits)
  have k: "k = a @ CHR '' '' # b"
    unfolding a_def b_def using m by (rule split_at_first)
  have a: "CHR '' '' \<notin> set a"
    unfolding a_def by (auto dest: set_takeWhileD)
  from len m have b: "CHR '' '' \<notin> set b"
    by (auto simp: numeral_3_eq_3 b_def split: if_splits)
  from nl k have "CHR ''\<newline>'' \<notin> set a" "CHR ''\<newline>'' \<notin> set b"
    by (metis Un_iff set_append, metis Un_iff list.set_intros(2) set_append)
  with k a b show ?thesis by blast
qed

lemma marked_line_of_two_part_key:
  assumes "two_part_key k"
  shows "key_of (marked_line k) = k"
    and "carries_marker (marked_line k)"
    and "\<not> malformed (marked_line k)"
    and "CHR ''\<newline>'' \<notin> set (marked_line k)"
proof -
  from assms obtain a b where k: "k = a @ CHR '' '' # b"
    and a: "CHR '' '' \<notin> set a" and b: "CHR '' '' \<notin> set b"
    and na: "CHR ''\<newline>'' \<notin> set a" and nb: "CHR ''\<newline>'' \<notin> set b"
    using two_part_key_split by blast
  have "SplitN (a @ CHR '' '' # (b @ CHR '' '' # keyMagicComment)) CHR '' '' (Suc (Suc (Suc 0))) =
        a # SplitN (b @ CHR '' '' # keyMagicComment) CHR '' '' (Suc (Suc 0))"
    using a by (rule SplitN_first)
  also have "SplitN (b @ CHR '' '' # keyMagicComment) CHR '' '' (Suc (Suc 0)) =
        b # SplitN keyMagicComment CHR '' '' (Suc 0)"
    using b by (rule SplitN_first)
  finally have s: "SplitN (marked_line k) CHR '' '' 3 = [a, b, keyMagicComment]"
    by (simp add: marked_line_def k numeral_3_eq_3)
  show "key_of (marked_line k) = k" unfolding key_of_def s by (simp add: k)
  show "carries_marker (marked_line k)" by (simp add: carries_marker_def s)
  show "\<not> malformed (marked_line k)" by (simp add: malformed_def s)
  show "CHR ''\<newline>'' \<notin> set (marked_line k)"
    using na nb by (simp add: marked_line_def k keyMagicComment_def)
qed

text \<open>The output of a successful run, read again with the same fetched keys.\<close>

lemma second_run:
  assumes keys: "\<forall>k\<in>set newKeyset. two_part_key k"
    and run: "ensureKeysetUpToDate iteration newKeyset (buf, fin) = (None, out)"
    and order: "map_range (pending newKeyset (buf, fin)) iteration"
  shows "file_lines out = file_lines buf @ map marked_line iteration"
    and "out = unlines (file_lines out)"
    and "pending newKeyset (out, EOF) = {}"
    and "ensureKeysetUpToDate iteration' newKeyset (out, EOF) =
           (None, out @ unlines (map marked_line iteration'))"
proof -
  from run have ok: "fst (ensureKeysetUpToDate iteration newKeyset (buf, fin)) = None" by simp
  have wf: "\<forall>l\<in>set (file_lines buf). \<not> malformed l" using ok by (rule ensure_success(2))
  have out: "out = unlines (file_lines buf) @ unlines (map marked_line iteration)"
    using ensure_success(3) [OF ok] run by simp
  have pend: "pending newKeyset (buf, fin) = set newKeyset - key_of ` set (file_lines buf)"
    using ok by (rule ensure_success(4))
  from order pend have it: "set iteration = set newKeyset - key_of ` set (file_lines buf)"
    by (simp add: map_range_def)
  then have two: "\<forall>k\<in>set iteration. two_part_key k" using keys by auto
  have nonl: "\<forall>l\<in>set (file_lines buf @ map marked_line iteration). CHR ''\<newline>'' \<notin> set l"
    using two file_lines_no_newline [of _ buf] marked_line_of_two_part_key(4) by auto
  have "file_lines (unlines (file_lines buf @ map marked_line iteration) @ []) =
        (file_lines buf @ map marked_line iteration) @ file_lines []"
    using nonl by (rule file_lines_unlines)
  then show fl: "file_lines out = file_lines buf @ map marked_line iteration"
    by (simp add: out file_lines_stop)
  show ul: "out = unlines (file_lines out)" unfolding fl by (simp add: out)
  have wf': "\<forall>l\<in>set (file_lines out). \<not> malformed l"
    using wf two marked_line_of_two_part_key(3) by (auto simp: fl)
  have "key_of ` set (map marked_line iteration) = set iteration"
    using two marked_line_of_two_part_key(1) by (auto simp: image_iff)
  then have "set newKeyset - key_of ` set (file_lines out) = {}"
    using it by (auto simp: fl image_Un)
  then show "pending newKeyset (out, EOF) = {}"
    using ensure_wellformed(2) [OF wf', of newKeyset] by simp
  show "ensureKeysetUpToDate iteration' newKeyset (out, EOF) =
           (None, out @ unlines (map marked_line iteration'))"
    using ensure_wellformed(1) [OF wf', of iteration' newKeyset] ul by simp
qed

section \<open>The claims\<close>

subsection \<open>Marked lines\<close>

text \<open>
  A line that the loop reads (it ends in a newline, and every line before it splits into
  at least two parts), that splits into three parts, the third being the ownership marker,
  and whose key is in the map when the loop reaches it, is written in canonical form (key,
  one space, the marker, a newline) right after the lines before it, and its key leaves
  the map. The test \<^verbatim>\<open>len(parts) > 3\<close> is false for such a line, so it is the
  pass-through branch that writes it; a line that splits into a key and the marker is its
  own canonical form.
\<close>

lemma marked_line_refreshed_when_read:
  assumes "\<forall>l\<in>set pre. CHR ''\<newline>'' \<notin> set l \<and> \<not> malformed l"
    and "CHR ''\<newline>'' \<notin> set line"
    and "SplitN line CHR '' '' 3 = [p0, p1, keyMagicComment]"
    and "p0 @ '' '' @ p1 \<in> set newKeyset - key_of ` set pre"
    and "map_range (pending newKeyset (unlines pre @ line @ ''\<newline>'' @ rest, fin)) iteration"
  shows "read_loop 1 (set newKeyset) [] (unlines pre @ line @ ''\<newline>'' @ rest, fin) =
         read_loop (length pre + 2) (set newKeyset - key_of ` set pre - {p0 @ '' '' @ p1})
           (unlines pre @ marked_line (p0 @ '' '' @ p1) @ ''\<newline>'') (rest, fin) \<and>
         prefix (unlines pre @ marked_line (p0 @ '' '' @ p1) @ ''\<newline>'')
           (snd (ensureKeysetUpToDate iteration newKeyset
                   (unlines pre @ line @ ''\<newline>'' @ rest, fin))) \<and>
         p0 @ '' '' @ p1 \<notin> pending newKeyset (unlines pre @ line @ ''\<newline>'' @ rest, fin) \<and>
         p0 @ '' '' @ p1 \<notin> set iteration"
proof -
  have line: "line = marked_line (p0 @ '' '' @ p1)"
    using SplitN_3_join [OF assms(3)] by (simp add: marked_line_def)
  have key: "key_of line = p0 @ '' '' @ p1"
    using assms(3) by (simp add: key_of_def)
  have ok: "\<not> malformed line"
    using assms(3) by (simp add: malformed_def)
  have np: "p0 @ '' '' @ p1 \<notin> pending newKeyset (unlines pre @ line @ ''\<newline>'' @ rest, fin)"
    using reached_line_effects(2) [OF assms(1,2) ok, of newKeyset rest fin] key by simp
  have "p0 @ '' '' @ p1 \<notin> set iteration"
    using assms(5) np by (rule not_pending_not_iterated)
  moreover have "read_loop 1 (set newKeyset) [] (unlines pre @ line @ ''\<newline>'' @ rest, fin) =
         read_loop (length pre + 2) (set newKeyset - key_of ` set pre - {p0 @ '' '' @ p1})
           (unlines pre @ marked_line (p0 @ '' '' @ p1) @ ''\<newline>'') (rest, fin)"
    using read_loop_reaches [OF assms(1,2) ok, of newKeyset rest fin] key line by simp
  moreover have "prefix (unlines pre @ marked_line (p0 @ '' '' @ p1) @ ''\<newline>'')
           (snd (ensureKeysetUpToDate iteration newKeyset
                   (unlines pre @ line @ ''\<newline>'' @ rest, fin)))"
    using reached_line_effects(1) [OF assms(1,2) ok, of iteration newKeyset rest fin] line by simp
  ultimately show ?thesis using np by blast
qed

text \<open>
  Claim C1. Every line of the current file that splits into three parts, the third being
  the ownership marker, and whose key is in the map is to be written in canonical form at
  its place, its key leaving the map so that it is not appended at the end. The loop
  leaves at \<^verbatim>\<open>err == io.EOF\<close> before it splits the bytes \<^verbatim>\<open>ReadString\<close> returned
  with that error, so a marked last line without a final newline is never processed: its
  key stays in the map, and the second loop appends it, here after the new key
  \<^verbatim>\<open>ssh-rsa CCC\<close> and not at the place of the line.
\<close>

theorem C1_unterminated_marked_line_appended:
  "SplitN ''ssh-rsa AAA synced from github'' CHR '' '' 3 = [''ssh-rsa'', ''AAA'', keyMagicComment] \<and>
   \<not> malformed ''x y'' \<and>
   ''ssh-rsa AAA'' \<in> set [''ssh-rsa AAA'', ''ssh-rsa CCC''] - key_of ` set [''x y''] \<and>
   ''ssh-rsa AAA'' \<in> pending [''ssh-rsa AAA'', ''ssh-rsa CCC'']
      (''x y\<newline>ssh-rsa AAA synced from github'', EOF) \<and>
   map_range (pending [''ssh-rsa AAA'', ''ssh-rsa CCC'']
      (''x y\<newline>ssh-rsa AAA synced from github'', EOF)) [''ssh-rsa CCC'', ''ssh-rsa AAA''] \<and>
   ensureKeysetUpToDate [''ssh-rsa CCC'', ''ssh-rsa AAA''] [''ssh-rsa AAA'', ''ssh-rsa CCC'']
      (''x y\<newline>ssh-rsa AAA synced from github'', EOF) =
     (None, ''x y\<newline>ssh-rsa CCC synced from github\<newline>ssh-rsa AAA synced from github\<newline>'') \<and>
   read_loop 1 (set [''ssh-rsa AAA'', ''ssh-rsa CCC'']) []
      (''x y\<newline>ssh-rsa AAA synced from github'', EOF) =
     (None, ''x y\<newline>'', set [''ssh-rsa AAA'', ''ssh-rsa CCC''])"
  by code_simp

text \<open>
  Claim C2. A line that carries the marker and whose key is not in the map is to be left
  out of the output. \<^verbatim>\<open>strings.SplitN(line, " ", 3)\<close> returns at most three parts, so
  the test \<^verbatim>\<open>len(parts) > 3\<close> that guards the removal is never true and the line is
  written by the pass-through branch: with the fetched key \<^verbatim>\<open>ssh-rsa CCC\<close> and the
  file holding the marked line of \<^verbatim>\<open>ssh-rsa AAA\<close>, the output still holds that line.
\<close>

theorem C2_stale_marked_line_kept:
  "carries_marker ''ssh-rsa AAA synced from github'' \<and>
   key_of ''ssh-rsa AAA synced from github'' = ''ssh-rsa AAA'' \<and>
   ''ssh-rsa AAA'' \<notin> set [''ssh-rsa CCC''] \<and>
   map_range (pending [''ssh-rsa CCC''] (''ssh-rsa AAA synced from github\<newline>'', EOF))
     [''ssh-rsa CCC''] \<and>
   ensureKeysetUpToDate [''ssh-rsa CCC''] [''ssh-rsa CCC'']
     (''ssh-rsa AAA synced from github\<newline>'', EOF) =
     (None, ''ssh-rsa AAA synced from github\<newline>ssh-rsa CCC synced from github\<newline>'')"
  by code_simp

subsection \<open>Convergence and idempotence\<close>




text \<open>
  Claim C4, as the code has it. Let every fetched key be of the form
  \<^verbatim>\<open><algorithm> <key-material>\<close>, and let a run on the file succeed with output
  \<open>out\<close>. Then a second run on \<open>out\<close> with the same fetched keys succeeds, appends
  nothing and writes \<open>out\<close> again. The first run introduces no duplicate: the lines of
  \<open>out\<close> are the newline-terminated lines of the file followed by one marked line for
  each key it appends, these keys are pairwise distinct, and none of them is the key of a
  newline-terminated line of the file.
\<close>

theorem C4_second_run_identical:
  assumes "\<forall>k\<in>set newKeyset. two_part_key k"
    and "ensureKeysetUpToDate iteration newKeyset (buf, fin) = (None, out)"
    and "map_range (pending newKeyset (buf, fin)) iteration"
    and "map_range (pending newKeyset (out, EOF)) iteration'"
  shows "ensureKeysetUpToDate iteration' newKeyset (out, EOF) = (None, out) \<and>
         iteration' = [] \<and>
         file_lines out = file_lines buf @ map marked_line iteration \<and>
         distinct iteration \<and>
         set iteration \<inter> key_of ` set (file_lines buf) = {}"
proof -
  from assms(2) have ok: "fst (ensureKeysetUpToDate iteration newKeyset (buf, fin)) = None"
    by simp
  have "pending newKeyset (buf, fin) = set newKeyset - key_of ` set (file_lines buf)"
    using ok by (rule ensure_success(4))
  with assms(3) have it: "distinct iteration"
    "set iteration \<inter> key_of ` set (file_lines buf) = {}"
    by (auto simp: map_range_def)
  have fl: "file_lines out = file_lines buf @ map marked_line iteration"
    using assms(1,2,3) by (rule second_run(1))
  have "pending newKeyset (out, EOF) = {}"
    using assms(1,2,3) by (rule second_run(3))
  with assms(4) have e: "iteration' = []" by (simp add: map_range_def)
  then have "ensureKeysetUpToDate iteration' newKeyset (out, EOF) = (None, out)"
    using second_run(4) [OF assms(1,2,3), of iteration'] by simp
  with e fl it show ?thesis by blast
qed

theorem C4_second_run_identical_witness:
  "two_part_key ''ssh-rsa AAA'' \<and> two_part_key ''ssh-ed25519 DDD'' \<and>
   ensureKeysetUpToDate [''ssh-ed25519 DDD'', ''ssh-rsa AAA''] [''ssh-rsa AAA'', ''ssh-ed25519 DDD'']
     (''# mine\<newline>ssh-rsa EEE me@host\<newline>'', EOF) =
     (None, ''# mine\<newline>ssh-rsa EEE me@host\<newline>ssh-ed25519 DDD synced from github\<newline>ssh-rsa AAA synced from github\<newline>'') \<and>
   map_range (pending [''ssh-rsa AAA'', ''ssh-ed25519 DDD''] (''# mine\<newline>ssh-rsa EEE me@host\<newline>'', EOF))
     [''ssh-ed25519 DDD'', ''ssh-rsa AAA''] \<and>
   map_range (pending [''ssh-rsa AAA'', ''ssh-ed25519 DDD'']
     (''# mine\<newline>ssh-rsa EEE me@host\<newline>ssh-ed25519 DDD synced from github\<newline>ssh-rsa AAA synced from github\<newline>'', EOF))
     [] \<and>
   ensureKeysetUpToDate [] [''ssh-rsa AAA'', ''ssh-ed25519 DDD'']
     (''# mine\<newline>ssh-rsa EEE me@host\<newline>ssh-ed25519 DDD synced from github\<newline>ssh-rsa AAA synced from github\<newline>'', EOF) =
     (None, ''# mine\<newline>ssh-rsa EEE me@host\<newline>ssh-ed25519 DDD synced from github\<newline>ssh-rsa AAA synced from github\<newline>'')"
proof -
  let ?R = "[''ssh-rsa AAA'', ''ssh-ed25519 DDD'']"
  let ?it = "[''ssh-ed25519 DDD'', ''ssh-rsa AAA'']"
  let ?F = "''# mine\<newline>ssh-rsa EEE me@host\<newline>''"
  let ?out = "''# mine\<newline>ssh-rsa EEE me@host\<newline>ssh-ed25519 DDD synced from github\<newline>ssh-rsa AAA synced from github\<newline>''"
  have t: "two_part_key ''ssh-rsa AAA''" "two_part_key ''ssh-ed25519 DDD''" by code_simp+
  then have h1: "\<forall>k\<in>set ?R. two_part_key k" by simp
  have h2: "ensureKeysetUpToDate ?it ?R (?F, EOF) = (None, ?out)" by code_simp
  have h3: "map_range (pending ?R (?F, EOF)) ?it" by code_simp
  have h4: "map_range (pending ?R (?out, EOF)) []" by code_simp
  show ?thesis
    using C4_second_run_identical [OF h1 h2 h3 h4] t h2 h3 h4 by simp
qed

text \<open>
  A fetched key that carries a comment is appended by every run: the second run's output
  holds its line twice.
\<close>

theorem C4_counterexample:
  "map_range (pending [''ssh-rsa AAA comment''] ([], EOF)) [''ssh-rsa AAA comment''] \<and>
   ensureKeysetUpToDate [''ssh-rsa AAA comment''] [''ssh-rsa AAA comment''] ([], EOF) =
     (None, ''ssh-rsa AAA comment synced from github\<newline>'') \<and>
   map_range (pending [''ssh-rsa AAA comment'']
     (''ssh-rsa AAA comment synced from github\<newline>'', EOF)) [''ssh-rsa AAA comment''] \<and>
   ensureKeysetUpToDate [''ssh-rsa AAA comment''] [''ssh-rsa AAA comment'']
     (''ssh-rsa AAA comment synced from github\<newline>'', EOF) =
     (None, ''ssh-rsa AAA comment synced from github\<newline>ssh-rsa AAA comment synced from github\<newline>'')"
  by code_simp

subsection \<open>Lines the tool does not own\<close>

text \<open>
  Claim C5. Every unmanaged line of the current file is to appear verbatim in the output.
  The loop leaves at \<^verbatim>\<open>err == io.EOF\<close> before it looks at the bytes
  \<^verbatim>\<open>ReadString\<close> returned with that error, so the last line of a file that does not
  end in a newline is never written: the run below succeeds and its output lacks the
  unmarked line \<^verbatim>\<open>ssh-ed25519 BBB me@laptop\<close>.
\<close>

theorem C5_unterminated_line_lost:
  "\<not> carries_marker ''ssh-ed25519 BBB me@laptop'' \<and>
   \<not> malformed ''ssh-ed25519 BBB me@laptop'' \<and>
   map_range (pending [] (''ssh-rsa AAA you\<newline>ssh-ed25519 BBB me@laptop'', EOF)) [] \<and>
   ensureKeysetUpToDate [] [] (''ssh-rsa AAA you\<newline>ssh-ed25519 BBB me@laptop'', EOF) =
     (None, ''ssh-rsa AAA you\<newline>'')"
  by code_simp

subsection \<open>Malformed lines\<close>

text \<open>
  The loop stops at the first line it reads that \<^verbatim>\<open>strings.SplitN(line, " ", 3)\<close>
  cannot split into at least two parts: with the lines \<open>pre\<close> before it, each of which
  splits into at least two parts, \<^verbatim>\<open>ensureKeysetUpToDate\<close> returns the error that
  carries the 1-based number of that line, \<open>length pre + 1\<close>, having written only the
  lines before it, and \<^verbatim>\<open>syncGithubKeys\<close> returns the error wrapped and leaves the
  file as it was.
\<close>

lemma first_malformed_line_reported:
  assumes "file_lines buf = pre @ line # post"
    and "\<forall>l\<in>set pre. \<not> malformed l"
    and "malformed line"
  shows "ensureKeysetUpToDate iteration newKeyset (buf, fin) =
           (Some (MalformedLine (length pre + 1)), unlines pre) \<and>
         (fetched env = Inr newKeyset \<and> authorized_keys env = Some content \<and>
          file_reader env content = (buf, fin) \<longrightarrow>
          syncGithubKeys iteration env =
            (Some (Wrap (MalformedLine (length pre + 1))
                     ''could not update authorized keys file''),
             Some content))"
proof -
  have e: "ensureKeysetUpToDate iteration newKeyset (buf, fin) =
           (Some (MalformedLine (length pre + 1)), unlines pre)"
    using assms by (rule ensure_malformed)
  then show ?thesis
    by (simp add: syncGithubKeys_def)
qed

text \<open>
  Claim C6. A current file with a line that cannot be split into at least two parts is to
  make the run fail with the number of that line, and nothing is to be written. The loop
  leaves at \<^verbatim>\<open>err == io.EOF\<close> before it splits the bytes \<^verbatim>\<open>ReadString\<close> returned
  with that error, so a malformed last line without a final newline raises no error:
  the run succeeds, and \<^verbatim>\<open>syncGithubKeys\<close> rewrites the file without that line,
  where the same line with a newline fails as malformed line 2.
\<close>

theorem C6_unterminated_malformed_line_accepted:
  "malformed ''notakey'' \<and>
   ensureKeysetUpToDate [] [] (''ssh-rsa AAA me\<newline>notakey'', EOF) =
     (None, ''ssh-rsa AAA me\<newline>'') \<and>
   syncGithubKeys []
     \<lparr>fetched = Inr [], authorized_keys = Some ''ssh-rsa AAA me\<newline>notakey'',
      read_fault = None, seek_fault = False, copy_fault = None, truncate_fault = False\<rparr> =
     (None, Some ''ssh-rsa AAA me\<newline>'') \<and>
   ensureKeysetUpToDate [] [] (''ssh-rsa AAA me\<newline>notakey\<newline>'', EOF) =
     (Some (MalformedLine 2), ''ssh-rsa AAA me\<newline>'')"
  by code_simp

text \<open>
  Claim C7. When \<^verbatim>\<open>ensureKeysetUpToDate\<close> returns an error (a malformed line, or a
  failed read), \<^verbatim>\<open>syncGithubKeys\<close> returns that error wrapped, before the seek, the
  copy and the truncation: the file holds exactly the contents it had before the cycle.
\<close>

theorem C7_failed_reconcile_leaves_file:
  assumes "fetched env = Inr publicKeys"
    and "authorized_keys env = Some content"
    and "fst (ensureKeysetUpToDate iteration publicKeys (file_reader env content)) = Some e"
  shows "syncGithubKeys iteration env =
           (Some (Wrap e ''could not update authorized keys file''), Some content) \<and>
         snd (syncGithubKeys iteration env) = authorized_keys env"
  using assms by (auto simp: syncGithubKeys_def split: prod.splits option.splits)

theorem C7_failed_reconcile_leaves_file_witness:
  "fetched \<lparr>fetched = Inr [''ssh-rsa AAA''], authorized_keys = Some ''ssh-rsa BBB me\<newline>\<newline>'',
      read_fault = None, seek_fault = False, copy_fault = None, truncate_fault = False\<rparr>
     = Inr [''ssh-rsa AAA''] \<and>
   fst (ensureKeysetUpToDate [''ssh-rsa AAA''] [''ssh-rsa AAA'']
     (file_reader \<lparr>fetched = Inr [''ssh-rsa AAA''], authorized_keys = Some ''ssh-rsa BBB me\<newline>\<newline>'',
      read_fault = None, seek_fault = False, copy_fault = None, truncate_fault = False\<rparr>
      ''ssh-rsa BBB me\<newline>\<newline>'')) = Some (MalformedLine 2) \<and>
   syncGithubKeys [''ssh-rsa AAA'']
     \<lparr>fetched = Inr [''ssh-rsa AAA''], authorized_keys = Some ''ssh-rsa BBB me\<newline>\<newline>'',
      read_fault = None, seek_fault = False, copy_fault = None, truncate_fault = False\<rparr>
     = (Some (Wrap (MalformedLine 2) ''could not update authorized keys file''),
        Some ''ssh-rsa BBB me\<newline>\<newline>'')"
proof -
  let ?env = "\<lparr>fetched = Inr [''ssh-rsa AAA''], authorized_keys = Some ''ssh-rsa BBB me\<newline>\<newline>'',
      read_fault = None, seek_fault = False, copy_fault = None, truncate_fault = False\<rparr>"
  have f: "fetched ?env = Inr [''ssh-rsa AAA'']" by simp
  have a: "authorized_keys ?env = Some ''ssh-rsa BBB me\<newline>\<newline>''" by simp
  have e: "fst (ensureKeysetUpToDate [''ssh-rsa AAA''] [''ssh-rsa AAA'']
     (file_reader ?env ''ssh-rsa BBB me\<newline>\<newline>'')) = Some (MalformedLine 2)"
    by code_simp
  show ?thesis
    using C7_failed_reconcile_leaves_file [OF f a e] f e by simp
qed

subsection \<open>The end of the file\<close>

text \<open>
  Claim C8. A last line without a final newline is to be treated as any other line.
  \<^verbatim>\<open>ReadString\<close> returns it together with \<^verbatim>\<open>io.EOF\<close>, and the loop leaves on
  that error first: the line is not split, not classified and not written. With the
  fetched key \<^verbatim>\<open>ssh-rsa AAA\<close>, the file \<^verbatim>\<open>ssh-rsa AAA me\<close> without a newline gives
  the output of an empty file (the key is appended as new and the line is lost), where
  the same line with a newline is kept and nothing is appended; and a last line
  \<^verbatim>\<open>x\<close> raises no error, where \<^verbatim>\<open>x\<close> with a newline is malformed line 1.
\<close>

theorem C8_trailing_line_ignored:
  "map_range (pending [''ssh-rsa AAA''] (''ssh-rsa AAA me'', EOF)) [''ssh-rsa AAA''] \<and>
   ensureKeysetUpToDate [''ssh-rsa AAA''] [''ssh-rsa AAA''] (''ssh-rsa AAA me'', EOF) =
     (None, ''ssh-rsa AAA synced from github\<newline>'') \<and>
   map_range (pending [''ssh-rsa AAA''] (''ssh-rsa AAA me\<newline>'', EOF)) [] \<and>
   ensureKeysetUpToDate [] [''ssh-rsa AAA''] (''ssh-rsa AAA me\<newline>'', EOF) =
     (None, ''ssh-rsa AAA me\<newline>'') \<and>
   ensureKeysetUpToDate [] [] (''x'', EOF) = (None, []) \<and>
   ensureKeysetUpToDate [] [] (''x\<newline>'', EOF) = (Some (MalformedLine 1), [])"
  by code_simp

subsection \<open>Blank lines and comments\<close>

text \<open>
  Claim C9, as the code has it. When every line of the current file splits into at least
  two parts, that is, holds a space, a run that reads to the end of the file succeeds and
  writes each newline-terminated line byte for byte and in order, before the keys it
  appends. A blank line does not split in two: a run succeeds only if no
  newline-terminated line is blank, or otherwise without a space.
\<close>

theorem C9_lines_with_two_parts_pass:
  shows "(fst (ensureKeysetUpToDate iteration newKeyset (buf, EOF)) = None \<longleftrightarrow>
          (\<forall>l\<in>set (file_lines buf). \<not> malformed l)) \<and>
         ((\<forall>l\<in>set (file_lines buf). \<not> malformed l) \<longrightarrow>
          ensureKeysetUpToDate iteration newKeyset (buf, EOF) =
            (None, unlines (file_lines buf) @ unlines (map marked_line iteration))) \<and>
         malformed []"
  using ensure_succeeds_iff [of iteration newKeyset buf]
    ensure_wellformed(1) [of buf iteration newKeyset]
  by (simp add: malformed_iff)

theorem C9_lines_with_two_parts_pass_witness:
  "file_lines ''# my keys\<newline>ssh-rsa AAA me\<newline>'' = [''# my keys'', ''ssh-rsa AAA me''] \<and>
   \<not> malformed ''# my keys'' \<and> \<not> malformed ''ssh-rsa AAA me'' \<and>
   ensureKeysetUpToDate [''ssh-rsa BBB''] [''ssh-rsa BBB'']
     (''# my keys\<newline>ssh-rsa AAA me\<newline>'', EOF) =
     (None, ''# my keys\<newline>ssh-rsa AAA me\<newline>ssh-rsa BBB synced from github\<newline>'')"
proof -
  let ?buf = "''# my keys\<newline>ssh-rsa AAA me\<newline>''"
  have fl: "file_lines ?buf = [''# my keys'', ''ssh-rsa AAA me'']" by code_simp
  have ok: "\<not> malformed ''# my keys''" "\<not> malformed ''ssh-rsa AAA me''" by code_simp+
  with fl have wf: "\<forall>l\<in>set (file_lines ?buf). \<not> malformed l" by simp
  have u: "unlines (file_lines ?buf) @ unlines (map marked_line [''ssh-rsa BBB'']) =
     ''# my keys\<newline>ssh-rsa AAA me\<newline>ssh-rsa BBB synced from github\<newline>''"
    by code_simp
  show ?thesis
    using C9_lines_with_two_parts_pass [of "[''ssh-rsa BBB'']" "[''ssh-rsa BBB'']" ?buf] wf fl ok u
    by simp
qed

text \<open>
  A file that holds a blank line, or a comment of one word, is rejected with the number
  of that line, and nothing is written.
\<close>

theorem C9_counterexample:
  "file_lines ''\<newline>'' = [[]] \<and>
   ensureKeysetUpToDate [] [] (''\<newline>'', EOF) = (Some (MalformedLine 1), []) \<and>
   file_lines ''#comment\<newline>'' = [''#comment''] \<and>
   ensureKeysetUpToDate [] [] (''#comment\<newline>'', EOF) = (Some (MalformedLine 1), [])"
  by code_simp

subsection \<open>Keys already in the file\<close>

text \<open>
  When the loop has processed a line that it reads (the line ends in a newline, and every
  line before it splits into at least two parts) and that splits into at least two parts
  itself, marked or not, the key of the line (its first two parts joined by a space) is
  out of the map: it is not in the map the second loop ranges over, so no order of that
  loop appends it at the end of the output.
\<close>

lemma key_of_read_line_never_appended:
  assumes "\<forall>l\<in>set pre. CHR ''\<newline>'' \<notin> set l \<and> \<not> malformed l"
    and "CHR ''\<newline>'' \<notin> set line"
    and "\<not> malformed line"
    and "map_range (pending newKeyset (unlines pre @ line @ ''\<newline>'' @ rest, fin)) iteration"
  shows "read_loop 1 (set newKeyset) [] (unlines pre @ line @ ''\<newline>'' @ rest, fin) =
         read_loop (length pre + 2) (set newKeyset - key_of ` set pre - {key_of line})
           (unlines pre @ line @ ''\<newline>'') (rest, fin) \<and>
         key_of line \<notin> pending newKeyset (unlines pre @ line @ ''\<newline>'' @ rest, fin) \<and>
         key_of line \<notin> set iteration"
proof -
  have np: "key_of line \<notin> pending newKeyset (unlines pre @ line @ ''\<newline>'' @ rest, fin)"
    using assms(1,2,3) by (rule reached_line_effects(2))
  have "key_of line \<notin> set iteration"
    using assms(4) np by (rule not_pending_not_iterated)
  with np read_loop_reaches [OF assms(1,2,3), of newKeyset rest fin] show ?thesis by blast
qed

text \<open>
  Claim C10. A fetched key that is the first two parts of any line of the current file,
  marked or not, is to leave the map when the line is processed, and is never to be
  appended at the end of the output. The loop leaves at \<^verbatim>\<open>err == io.EOF\<close> before it
  processes the bytes \<^verbatim>\<open>ReadString\<close> returned with that error, so the key of a last
  line without a final newline stays in the map and is appended, where the same line
  with a newline takes the key out of the map and nothing is appended.
\<close>

theorem C10_key_of_unterminated_line_appended:
  "key_of ''ssh-ed25519 BBB me@laptop'' = ''ssh-ed25519 BBB'' \<and>
   \<not> carries_marker ''ssh-ed25519 BBB me@laptop'' \<and>
   ''ssh-ed25519 BBB'' \<in> pending [''ssh-ed25519 BBB'']
      (''# keys\<newline>ssh-ed25519 BBB me@laptop'', EOF) \<and>
   map_range (pending [''ssh-ed25519 BBB''] (''# keys\<newline>ssh-ed25519 BBB me@laptop'', EOF))
     [''ssh-ed25519 BBB''] \<and>
   ensureKeysetUpToDate [''ssh-ed25519 BBB''] [''ssh-ed25519 BBB'']
      (''# keys\<newline>ssh-ed25519 BBB me@laptop'', EOF) =
     (None, ''# keys\<newline>ssh-ed25519 BBB synced from github\<newline>'') \<and>
   map_range (pending [''ssh-ed25519 BBB''] (''# keys\<newline>ssh-ed25519 BBB me@laptop\<newline>'', EOF))
     [] \<and>
   ensureKeysetUpToDate [] [''ssh-ed25519 BBB'']
      (''# keys\<newline>ssh-ed25519 BBB me@laptop\<newline>'', EOF) =
     (None, ''# keys\<newline>ssh-ed25519 BBB me@laptop\<newline>'')"
  by code_simp

end
